theory Spec2Isabelle
  imports Complex_Main
begin

section \<open>Token bucket rate limiter\<close>

text \<open>
  The limiter of the custom-middleware example (\<^verbatim>\<open>RateLimiter\<close>, \<^verbatim>\<open>NewRateLimiter\<close>,
  \<^verbatim>\<open>Allow\<close>). A \<^verbatim>\<open>float64\<close> value is the real number it denotes; infinities and NaN are
  outside this model. A \<^verbatim>\<open>time.Time\<close> reading is a number of seconds on the monotonic
  clock. The call \<^verbatim>\<open>time.Now()\<close> is an effect; its result is an explicit argument \<open>now\<close>.
  The mutex field guards the whole body of \<^verbatim>\<open>Allow\<close>; the model is of one call at a time.

  The body of \<^verbatim>\<open>Allow\<close> is given twice. \<open>Allow\<close> computes with exact arithmetic; it serves
  for the bounds on the token count, which rounding to the nearest \<^verbatim>\<open>float64\<close> preserves.
  \<open>Allow_float64\<close> has the arithmetic of \<^verbatim>\<open>float64\<close> as parameters and serves where the
  exact values matter.
\<close>

record RateLimiter =
  rate :: real
  maxTokens :: real
  tokens :: real
  lastUpdate :: real

definition NewRateLimiter :: "real \<Rightarrow> real \<Rightarrow> real \<Rightarrow> RateLimiter" where
  "NewRateLimiter r m now =
     \<lparr>rate = r, maxTokens = m, tokens = m, lastUpdate = now\<rparr>"

text \<open>
  \<^verbatim>\<open>Allow\<close> returns the verdict and the updated limiter. The steps follow the body:
  add \<open>elapsed * rate\<close>, cut down to \<open>maxTokens\<close> when above it, store \<open>now\<close>, then take
  one token when at least one is there.
\<close>

definition Allow :: "RateLimiter \<Rightarrow> real \<Rightarrow> bool \<times> RateLimiter" where
  "Allow rl now =
     (let elapsed = now - lastUpdate rl;
          rl1 = rl\<lparr>tokens := tokens rl + elapsed * rate rl\<rparr>;
          rl2 = (if tokens rl1 > maxTokens rl1 then rl1\<lparr>tokens := maxTokens rl1\<rparr> else rl1);
          rl3 = rl2\<lparr>lastUpdate := now\<rparr>
      in if tokens rl3 \<ge> 1 then (True, rl3\<lparr>tokens := tokens rl3 - 1\<rparr>)
         else (False, rl3))"

text \<open>
  A sequence of calls at the given clock readings: \<open>observed\<close> lists the limiter before the
  first call and after every call; \<open>burst n rl now\<close> lists the verdicts of \<open>n\<close> calls that
  all read the same clock value \<open>now\<close>.
\<close>

fun observed :: "RateLimiter \<Rightarrow> real list \<Rightarrow> RateLimiter list" where
  "observed rl [] = [rl]"
| "observed rl (t # ts) = rl # observed (snd (Allow rl t)) ts"

fun burst :: "nat \<Rightarrow> RateLimiter \<Rightarrow> real \<Rightarrow> bool list" where
  "burst 0 rl now = []"
| "burst (Suc n) rl now = fst (Allow rl now) # burst n (snd (Allow rl now)) now"

definition admitted :: "bool list \<Rightarrow> nat" where
  "admitted vs = length (takeWhile (\<lambda>v. v) vs)"

text \<open>
  The same body with the \<^verbatim>\<open>float64\<close> operations as parameters: \<open>rnd\<close> maps the exact
  result of an addition, a multiplication or a subtraction to the \<^verbatim>\<open>float64\<close> that the
  operation returns, and \<open>secs d\<close> is the \<^verbatim>\<open>float64\<close> that \<^verbatim>\<open>Duration.Seconds()\<close> returns
  for an elapsed time \<open>d\<close>. The comparisons are exact.
\<close>

definition Allow_float64 ::
  "(real \<Rightarrow> real) \<Rightarrow> (real \<Rightarrow> real) \<Rightarrow> RateLimiter \<Rightarrow> real \<Rightarrow> bool \<times> RateLimiter" where
  "Allow_float64 rnd secs rl now =
     (let elapsed = secs (now - lastUpdate rl);
          rl1 = rl\<lparr>tokens := rnd (tokens rl + rnd (elapsed * rate rl))\<rparr>;
          rl2 = (if tokens rl1 > maxTokens rl1 then rl1\<lparr>tokens := maxTokens rl1\<rparr> else rl1);
          rl3 = rl2\<lparr>lastUpdate := now\<rparr>
      in if tokens rl3 \<ge> 1 then (True, rl3\<lparr>tokens := rnd (tokens rl3 - 1)\<rparr>)
         else (False, rl3))"

text \<open>
  \<open>refilled\<close> is the token count that the refill of a call at \<open>now\<close> stores, before the
  check against 1; \<open>burst_float64\<close> lists the verdicts of \<open>n\<close> calls that all read the
  same clock value.
\<close>

definition refilled :: "(real \<Rightarrow> real) \<Rightarrow> (real \<Rightarrow> real) \<Rightarrow> RateLimiter \<Rightarrow> real \<Rightarrow> real" where
  "refilled rnd secs rl now =
     min (maxTokens rl) (rnd (tokens rl + rnd (secs (now - lastUpdate rl) * rate rl)))"

fun burst_float64 ::
  "(real \<Rightarrow> real) \<Rightarrow> (real \<Rightarrow> real) \<Rightarrow> nat \<Rightarrow> RateLimiter \<Rightarrow> real \<Rightarrow> bool list" where
  "burst_float64 rnd secs 0 rl now = []"
| "burst_float64 rnd secs (Suc n) rl now =
     fst (Allow_float64 rnd secs rl now) #
     burst_float64 rnd secs n (snd (Allow_float64 rnd secs rl now)) now"

text \<open>
  A rounding to exercise the parameters: \<open>quarters\<close> rounds down to a multiple of \<open>1/4\<close>.
\<close>

definition quarters :: "real \<Rightarrow> real" where
  "quarters v = real_of_int \<lfloor>v * 4\<rfloor> / 4"

section \<open>Middleware chain\<close>

text \<open>
  The middleware-principle example registers handler functions that write to the log and
  call \<^verbatim>\<open>c.Next()\<close> or \<^verbatim>\<open>c.Abort...()\<close>, and quotes the two methods of the context:

  \<^verbatim>\<open>func (c *Context) Next() {
      c.index++
      for c.index < int8(len(c.handlers)) {
          c.handlers[c.index](c)
          c.index++
      }
  }
  const abortIndex int8 = math.MaxInt8 >> 1  // 63
  func (c *Context) Abort() { c.index = abortIndex }\<close>

  A handler body is a sequence of the operations these examples perform on the context.
  The log lines of the examples are kept by kind and name: \<open>Enter n\<close> for the line a
  middleware \<open>n\<close> prints on entry, \<open>Return n\<close> for the one it prints after \<^verbatim>\<open>c.Next()\<close>
  has returned, \<open>Msg s\<close> for any other line.
\<close>

datatype logline = Enter string | Return string | Msg string

datatype op = Log logline | CallNext | CallAbort

type_synonym HandlerFunc = "op list"

datatype error = IndexOutOfRange

text \<open>
  The context holds the cursor and the handler chain. \<open>logged\<close> is the shared log the
  handlers print to, and \<open>calls\<close> records the position of every handler that is invoked,
  in invocation order.
\<close>

record Context =
  index :: int
  handlers :: "HandlerFunc list"
  logged :: "logline list"
  calls :: "nat list"

text \<open>
  A run ends in a context, or in a runtime panic together with the context reached;
  \<open>None\<close> means the fuel ran out.
\<close>

type_synonym outcome = "(error \<times> Context + Context) option"

definition final :: "error \<times> Context + Context \<Rightarrow> Context" where
  "final r = (case r of Inl (e, c) \<Rightarrow> c | Inr c \<Rightarrow> c)"

text \<open>The cursor is an \<^verbatim>\<open>int8\<close>: \<open>int8\<close> is the conversion, with its wrap-around.\<close>

definition int8 :: "int \<Rightarrow> int" where
  "int8 x = (x + 128) mod 256 - 128"

definition abortIndex :: int where
  "abortIndex = 127 div 2"

definition Abort :: "Context \<Rightarrow> Context" where
  "Abort c = c\<lparr>index := abortIndex\<rparr>"

text \<open>
  \<open>Next\<close> increments the cursor and enters the loop \<open>Next_for\<close>; \<open>call\<close> runs a handler
  body. Indexing the slice outside its bounds is the runtime panic of Go. One unit of
  fuel is spent for each handler the loop invokes.
\<close>

fun Next :: "nat \<Rightarrow> Context \<Rightarrow> outcome"
and Next_for :: "nat \<Rightarrow> Context \<Rightarrow> outcome"
and call :: "nat \<Rightarrow> op list \<Rightarrow> Context \<Rightarrow> outcome" where
  "Next fuel c = Next_for fuel (c\<lparr>index := int8 (index c + 1)\<rparr>)"
| "Next_for fuel c =
     (if index c < int8 (int (length (handlers c))) then
        (if index c < 0 \<or> int (length (handlers c)) \<le> index c
         then Some (Inl (IndexOutOfRange, c))
         else (case fuel of
                 0 \<Rightarrow> None
               | Suc fuel' \<Rightarrow>
                  (case call fuel' (handlers c ! nat (index c))
                          (c\<lparr>calls := calls c @ [nat (index c)]\<rparr>) of
                     None \<Rightarrow> None
                   | Some (Inl e) \<Rightarrow> Some (Inl e)
                   | Some (Inr c') \<Rightarrow> Next_for fuel' (c'\<lparr>index := int8 (index c' + 1)\<rparr>))))
      else Some (Inr c))"
| "call fuel [] c = Some (Inr c)"
| "call fuel (Log l # ops) c = call fuel ops (c\<lparr>logged := logged c @ [l]\<rparr>)"
| "call fuel (CallNext # ops) c =
     (case Next fuel c of
        None \<Rightarrow> None
      | Some (Inl e) \<Rightarrow> Some (Inl e)
      | Some (Inr c') \<Rightarrow> call fuel ops c')"
| "call fuel (CallAbort # ops) c = call fuel ops (Abort c)"

text \<open>\<^verbatim>\<open>visualMiddleware(name)\<close>: print on entry, call \<^verbatim>\<open>c.Next()\<close>, print on return.\<close>

definition visualMiddleware :: "string \<Rightarrow> HandlerFunc" where
  "visualMiddleware name = [Log (Enter name), CallNext, Log (Return name)]"

text \<open>The lines a handler body prints when all of it runs.\<close>

fun lines_of :: "op list \<Rightarrow> logline list" where
  "lines_of [] = []"
| "lines_of (Log l # ops) = l # lines_of ops"
| "lines_of (CallNext # ops) = lines_of ops"
| "lines_of (CallAbort # ops) = lines_of ops"

text \<open>
  Modelled from the spec: the pipeline executor, which is the framework's request
  dispatch and is not part of the repository. The specification says that it
  initialises the context with cursor 0 and the stage list, the terminal handler
  appended last, and starts execution by invoking stage 0.
\<close>

definition Execute :: "nat \<Rightarrow> HandlerFunc list \<Rightarrow> HandlerFunc \<Rightarrow> outcome" where
  "Execute fuel chain terminal =
     (let c = \<lparr>index = 0, handlers = chain @ [terminal], logged = [], calls = [0]\<rparr>
      in call fuel (handlers c ! nat (index c)) c)"

text \<open>
  Invariants of a run over a chain of at most 64 handlers. \<open>body_ok\<close> holds while a handler
  body runs: the cursor is in range and no recorded position is beyond it. \<open>loop_ok\<close> holds
  at the test of the loop: every recorded position is before the cursor, unless the cursor
  has wrapped. In both the recorded positions are strictly increasing. \<open>returns_ok lo c r\<close>
  describes the result \<open>r\<close> of a run started in \<open>c\<close>, and \<open>enough fuel c\<close> says that the
  fuel covers the handlers from the cursor on.
\<close>

definition body_ok :: "Context \<Rightarrow> bool" where
  "body_ok c \<longleftrightarrow>
     length (handlers c) \<le> 64 \<and> 0 \<le> index c \<and> index c \<le> 127 \<and>
     sorted_wrt (<) (calls c) \<and>
     (\<forall>j\<in>set (calls c). j < length (handlers c) \<and> int j \<le> index c)"

definition loop_ok :: "Context \<Rightarrow> bool" where
  "loop_ok c \<longleftrightarrow>
     length (handlers c) \<le> 64 \<and> - 128 \<le> index c \<and> index c \<le> 127 \<and>
     sorted_wrt (<) (calls c) \<and>
     (\<forall>j\<in>set (calls c). j < length (handlers c) \<and> (0 \<le> index c \<longrightarrow> int j < index c))"

definition returns_ok :: "int \<Rightarrow> Context \<Rightarrow> error \<times> Context + Context \<Rightarrow> bool" where
  "returns_ok lo c r \<longleftrightarrow>
     handlers (final r) = handlers c \<and> sorted_wrt (<) (calls (final r)) \<and>
     (\<forall>c'. r = Inr c' \<longrightarrow> body_ok c' \<and> lo \<le> index c')"

definition enough :: "nat \<Rightarrow> Context \<Rightarrow> bool" where
  "enough fuel c \<longleftrightarrow> int (length (handlers c)) \<le> int fuel + min 63 (index c) + 1"

section \<open>Properties of the token bucket\<close>

lemma Allow_tokens_upper: "tokens (snd (Allow rl now)) \<le> maxTokens rl"
  by (simp add: Allow_def Let_def)

lemma Allow_fields:
  "rate (snd (Allow rl now)) = rate rl"
  "maxTokens (snd (Allow rl now)) = maxTokens rl"
  "lastUpdate (snd (Allow rl now)) = now"
  by (simp_all add: Allow_def Let_def)

lemma Allow_float64_exact: "Allow_float64 (\<lambda>v. v) (\<lambda>v. v) rl now = Allow rl now"
  by (simp add: Allow_float64_def Allow_def)


lemma observed_bounds:
  "0 \<le> rate rl \<Longrightarrow> 0 \<le> tokens rl \<Longrightarrow> tokens rl \<le> maxTokens rl \<Longrightarrow>
   sorted (lastUpdate rl # ts) \<Longrightarrow>
   \<forall>s \<in> set (observed rl ts). 0 \<le> tokens s \<and> tokens s \<le> maxTokens rl"
proof (induction ts arbitrary: rl)
  case Nil
  then show ?case by simp
next
  case (Cons t ts)
  have e: "0 \<le> (t - lastUpdate rl) * rate rl"
    using Cons.prems by simp
  have lo: "0 \<le> tokens (snd (Allow rl t))"
    using Cons.prems e by (auto simp: Allow_def Let_def)
  have "\<forall>s\<in>set (observed (snd (Allow rl t)) ts).
          0 \<le> tokens s \<and> tokens s \<le> maxTokens (snd (Allow rl t))"
    using Cons.prems lo by (intro Cons.IH) (simp_all add: Allow_fields Allow_tokens_upper)
  then show ?case
    using Cons.prems by (simp add: Allow_fields)
qed

text \<open>
  C6, as amended. For a bucket built by the constructor with rate \<open>r \<ge> 0\<close> and capacity
  \<open>c \<ge> 0\<close>, and calls of \<open>Allow\<close> at clock readings that never go back, the token count
  seen before and after every call lies between 0 and \<open>c\<close>, however long the idle
  periods are.
\<close>

theorem tokens_within_capacity:
  "0 \<le> r \<Longrightarrow> 0 \<le> c \<Longrightarrow> sorted (t0 # ts) \<Longrightarrow>
   s \<in> set (observed (NewRateLimiter r c t0) ts) \<Longrightarrow> 0 \<le> tokens s \<and> tokens s \<le> c"
  using observed_bounds [of "NewRateLimiter r c t0" ts]
  by (simp add: NewRateLimiter_def)

theorem tokens_within_capacity_witness:
  "(0::real) \<le> 2 \<and> (0::real) \<le> 3 \<and> sorted [0, 1, 1, 1000 :: real] \<and>
   snd (Allow (NewRateLimiter 2 3 0) 1) \<in> set (observed (NewRateLimiter 2 3 0) [1, 1, 1000]) \<and>
   0 \<le> tokens (snd (Allow (NewRateLimiter 2 3 0) 1)) \<and>
   tokens (snd (Allow (NewRateLimiter 2 3 0) 1)) \<le> 3"
  using tokens_within_capacity [of 2 3 0 "[1, 1, 1000]" "snd (Allow (NewRateLimiter 2 3 0) 1)"]
  by simp

text \<open>
  The claim as stated puts no condition on the rate. With rate \<open>-1\<close> and capacity 1, one
  call five seconds after construction leaves \<open>-4\<close> tokens: the refill is only cut off
  from above.
\<close>

theorem tokens_within_capacity_counterexample:
  "tokens (observed (NewRateLimiter (-1) 1 0) [5] ! 1) = -4"
  by (simp add: Allow_def NewRateLimiter_def Let_def)

lemma Allow_float64_step:
  "fst (Allow_float64 rnd secs rl now) = (1 \<le> refilled rnd secs rl now)"
  "tokens (snd (Allow_float64 rnd secs rl now)) =
     (if 1 \<le> refilled rnd secs rl now then rnd (refilled rnd secs rl now - 1)
      else refilled rnd secs rl now)"
  "lastUpdate (snd (Allow_float64 rnd secs rl now)) = now"
  "maxTokens (snd (Allow_float64 rnd secs rl now)) = maxTokens rl"
  "rate (snd (Allow_float64 rnd secs rl now)) = rate rl"
  by (auto simp: Allow_float64_def refilled_def Let_def min_def)

lemma refilled_le: "refilled rnd secs rl now \<le> maxTokens rl"
  by (simp add: refilled_def)

lemma burst_float64_shape:
  assumes z: "rnd 0 = 0" "secs 0 = 0"
    and dec: "\<And>v. rnd v = v \<Longrightarrow> 1 \<le> v \<Longrightarrow> v \<le> B \<Longrightarrow> rnd (v - 1) = v - 1"
  shows "rnd (refilled rnd secs rl now) = refilled rnd secs rl now \<Longrightarrow>
         refilled rnd secs rl now \<le> B \<Longrightarrow>
         burst_float64 rnd secs n rl now =
           replicate (min n (nat \<lfloor>refilled rnd secs rl now\<rfloor>)) True @
           replicate (n - nat \<lfloor>refilled rnd secs rl now\<rfloor>) False"
proof (induction n arbitrary: rl)
  case 0
  then show ?case by simp
next
  case (Suc n)
  define x where "x = refilled rnd secs rl now"
  define rl' where "rl' = snd (Allow_float64 rnd secs rl now)"
  have x: "rnd x = x" "x \<le> B" "x \<le> maxTokens rl"
    using Suc.prems by (simp_all add: x_def refilled_le)
  have t': "tokens rl' = (if 1 \<le> x then x - 1 else x)"
    using dec [of x] x by (simp add: rl'_def Allow_float64_step x_def)
  have r': "rnd (tokens rl') = tokens rl'"
    using dec [of x] x t' by (simp split: if_splits)
  have f: "lastUpdate rl' = now" "maxTokens rl' = maxTokens rl"
    by (simp_all add: rl'_def Allow_float64_step)
  have le: "tokens rl' \<le> maxTokens rl"
    using x t' by (simp split: if_splits)
  have x': "refilled rnd secs rl' now = tokens rl'"
    using le r' z by (simp add: refilled_def f)
  have ih: "burst_float64 rnd secs n rl' now =
      replicate (min n (nat \<lfloor>tokens rl'\<rfloor>)) True @ replicate (n - nat \<lfloor>tokens rl'\<rfloor>) False"
    using Suc.IH [of rl'] x' r' x t' by (simp split: if_splits)
  show ?case
  proof (cases "1 \<le> x")
    case True
    then have "nat \<lfloor>x\<rfloor> = Suc (nat \<lfloor>x - 1\<rfloor>)"
      by linarith
    then show ?thesis
      using True t' ih
      by (simp add: x_def [symmetric] rl'_def [symmetric] Allow_float64_step)
  next
    case False
    then have "nat \<lfloor>x\<rfloor> = 0"
      by linarith
    then show ?thesis
      using False t' ih
      by (simp add: x_def [symmetric] rl'_def [symmetric] Allow_float64_step
            replicate_Suc [symmetric] del: replicate_Suc)
  qed
qed


text \<open>
  An instance with a rounding that is not the identity: with rate \<open>13/10\<close> and two idle
  seconds the product \<open>2.6\<close> is rounded to \<open>2.5\<close>, the refill stores 3 tokens, and three
  calls of a burst of five are admitted.
\<close>

lemma quarters_decrement: "quarters v = v \<Longrightarrow> quarters (v - 1) = v - 1"
proof -
  assume a: "quarters v = v"
  have "\<lfloor>(v - 1) * 4\<rfloor> = \<lfloor>v * 4\<rfloor> - 4"
    by (simp add: algebra_simps)
  then show ?thesis
    using a by (simp add: quarters_def diff_divide_distrib)
qed



text \<open>
  C10, as amended. The bucket returned by \<open>NewRateLimiter r c\<close> holds \<open>c\<close> tokens. When
  moreover \<open>r \<ge> 0\<close> and \<open>c \<ge> 1\<close>, the first call of \<open>Allow\<close>, at any clock reading not before
  the construction, returns true.
\<close>

theorem new_bucket_is_full:
  "tokens (NewRateLimiter r c t0) = c \<and>
   (0 \<le> r \<longrightarrow> 1 \<le> c \<longrightarrow> t0 \<le> now \<longrightarrow> fst (Allow (NewRateLimiter r c t0) now))"
proof -
  have "1 \<le> c + (now - t0) * r" if "0 \<le> r" "1 \<le> c" "t0 \<le> now"
  proof -
    have "0 \<le> (now - t0) * r"
      using that by simp
    then show ?thesis
      using that by linarith
  qed
  then show ?thesis
    by (auto simp: NewRateLimiter_def Allow_def Let_def)
qed

theorem new_bucket_is_full_witness:
  "tokens (NewRateLimiter 2 3 0) = 3 \<and>
   (0::real) \<le> 2 \<and> (1::real) \<le> 3 \<and> (0::real) \<le> 7 \<and> fst (Allow (NewRateLimiter 2 3 0) 7)"
  using new_bucket_is_full [of 2 3 0 7]
  by simp

text \<open>
  With rate \<open>-1\<close> and capacity 1, the first call one second after construction finds no
  token and returns false.
\<close>

theorem new_bucket_is_full_counterexample:
  "fst (Allow (NewRateLimiter (-1) 1 0) 1) = False"
  by (simp add: NewRateLimiter_def Allow_def Let_def)

section \<open>Properties of the middleware chain\<close>

declare Next.simps [simp del] Next_for.simps [simp del]

lemma int8_id: "- 128 \<le> x \<Longrightarrow> x \<le> 127 \<Longrightarrow> int8 x = x"
  by (simp add: int8_def)

lemma int8_succ: "0 \<le> x \<Longrightarrow> x \<le> 127 \<Longrightarrow> int8 (x + 1) = (if x = 127 then - 128 else x + 1)"
  by (simp add: int8_def)

lemma abortIndex_63: "abortIndex = 63"
  by (simp add: abortIndex_def)

lemma final_simps [simp]: "final (Inl (e, c)) = c" "final (Inr c) = c"
  by (simp_all add: final_def)

lemma Next_for_exit:
  "length (handlers c) \<le> 127 \<Longrightarrow> int (length (handlers c)) \<le> index c \<Longrightarrow>
   Next_for fuel c = Some (Inr c)"
  by (simp add: Next_for.simps int8_id)

lemma Next_for_invoke:
  "length (handlers c) \<le> 127 \<Longrightarrow> 0 \<le> index c \<Longrightarrow> index c < int (length (handlers c)) \<Longrightarrow>
   Next_for (Suc fuel) c =
     (case call fuel (handlers c ! nat (index c)) (c\<lparr>calls := calls c @ [nat (index c)]\<rparr>) of
        None \<Rightarrow> None
      | Some (Inl e) \<Rightarrow> Some (Inl e)
      | Some (Inr c') \<Rightarrow> Next_for fuel (c'\<lparr>index := int8 (index c' + 1)\<rparr>))"
  by (subst Next_for.simps) (simp add: int8_id)

lemma call_append:
  "call fuel ops c = Some (Inr c') \<Longrightarrow> call fuel (ops @ ops') c = call fuel ops' c'"
proof (induction ops arbitrary: c)
  case Nil
  then show ?case by simp
next
  case (Cons x ops)
  then show ?case
    by (cases x) (auto split: option.splits sum.splits)
qed

lemma call_Log:
  "call fuel (map Log ls) c = Some (Inr (c\<lparr>logged := logged c @ ls\<rparr>))"
  by (induction ls arbitrary: c) simp_all

lemma onion_unwind:
  assumes len: "length hs \<le> 64"
    and hs: "hs = map visualMiddleware names @ inner # rest"
    and e: "int (length hs) - 1 \<le> e" "e + int (length names) \<le> 126"
    and inner: "\<And>f c. handlers c = hs \<Longrightarrow> index c = int (length names) \<Longrightarrow>
        \<exists>c'. call f inner c = Some (Inr c') \<and> index c' = e \<and> handlers c' = hs \<and>
             logged c' = logged c @ ls \<and> calls c' = calls c"
  shows "i \<le> length names \<Longrightarrow> handlers c = hs \<Longrightarrow> index c = int i \<Longrightarrow>
         length names - i \<le> fuel \<Longrightarrow>
         \<exists>c'. call fuel (hs ! i) c = Some (Inr c') \<and>
              index c' = e + int (length names - i) \<and> handlers c' = hs \<and>
              logged c' = logged c @ map Enter (drop i names) @ ls @ rev (map Return (drop i names)) \<and>
              calls c' = calls c @ [Suc i ..< Suc (length names)]"
proof (induction "length names - i" arbitrary: i c fuel)
  case 0
  then have i: "i = length names" by simp
  have "hs ! i = inner"
    by (simp add: hs i nth_append)
  then show ?case
    using inner [of c fuel] 0 i by simp
next
  case (Suc k)
  then have i: "i < length names" and k: "k = length names - Suc i"
    by simp_all
  obtain f where f: "fuel = Suc f" and fk: "length names - Suc i \<le> f"
    using Suc.hyps(2) Suc.prems(4) by (cases fuel) simp_all
  have L: "length hs = length names + 1 + length rest"
    by (simp add: hs)
  have hi: "hs ! i = [Log (Enter (names ! i)), CallNext, Log (Return (names ! i))]"
    using i by (simp add: hs nth_append visualMiddleware_def)
  define c1 where "c1 = c\<lparr>logged := logged c @ [Enter (names ! i)], index := int (Suc i)\<rparr>"
  define c2 where "c2 = c1\<lparr>calls := calls c1 @ [Suc i]\<rparr>"
  have c2: "handlers c2 = hs" "index c2 = int (Suc i)"
    by (simp_all add: c2_def c1_def Suc.prems)
  obtain c3 where c3: "call f (hs ! Suc i) c2 = Some (Inr c3)"
      "index c3 = e + int (length names - Suc i)" "handlers c3 = hs"
      "logged c3 = logged c2 @ map Enter (drop (Suc i) names) @ ls @ rev (map Return (drop (Suc i) names))"
      "calls c3 = calls c2 @ [Suc (Suc i) ..< Suc (length names)]"
    using Suc.hyps(1) [OF k _ c2 fk] i by auto
  define c4 where "c4 = c3\<lparr>index := index c3 + 1\<rparr>"
  have i3: "int (length hs) \<le> index c3 + 1" "index c3 + 1 \<le> 127"
    using e c3(2) i by simp_all
  have n1: "Next_for fuel c1 = Some (Inr c4)"
  proof -
    have "Next_for (Suc f) c1 =
       (case call f (handlers c1 ! nat (index c1)) (c1\<lparr>calls := calls c1 @ [nat (index c1)]\<rparr>) of
          None \<Rightarrow> None
        | Some (Inl e) \<Rightarrow> Some (Inl e)
        | Some (Inr c') \<Rightarrow> Next_for f (c'\<lparr>index := int8 (index c' + 1)\<rparr>))"
      using len i by (intro Next_for_invoke) (simp_all add: c1_def Suc.prems L)
    also have "\<dots> = Next_for f (c3\<lparr>index := int8 (index c3 + 1)\<rparr>)"
      using c3(1) by (simp add: c1_def c2_def Suc.prems nat_add_distrib)
    also have "\<dots> = Next_for f c4"
      using i3 e by (simp add: int8_id c4_def)
    also have "\<dots> = Some (Inr c4)"
      using len i3 by (intro Next_for_exit) (simp_all add: c4_def c3)
    finally show ?thesis by (simp add: f)
  qed
  have w: "int8 (int i + 1) = int (Suc i)"
    using len i L by (simp add: int8_id)
  have "call fuel (hs ! i) c = Some (Inr (c4\<lparr>logged := logged c4 @ [Return (names ! i)]\<rparr>))"
    using n1 by (simp add: hi Next.simps w c1_def Suc.prems)
  moreover have "drop i names = names ! i # drop (Suc i) names"
    using i by (simp add: Cons_nth_drop_Suc)
  moreover have "[Suc i ..< Suc (length names)] = Suc i # [Suc (Suc i) ..< Suc (length names)]"
    using i by (simp add: upt_conv_Cons)
  moreover have "int (length names - i) = int (length names - Suc i) + 1"
    using i by simp
  ultimately show ?case
    by (simp add: c4_def c3 c2_def c1_def)
qed






lemma Next_past_end:
  "length (handlers c) \<le> 127 \<Longrightarrow> int (length (handlers c)) \<le> index c + 1 \<Longrightarrow> index c < 127 \<Longrightarrow>
   Next fuel c = Some (Inr (c\<lparr>index := index c + 1\<rparr>))"
  by (simp add: Next.simps int8_id Next_for_exit)

lemma after_abort_runs:
  "length (handlers c) \<le> 64 \<Longrightarrow> 63 \<le> index c \<Longrightarrow>
   index c + int (count_list ops CallNext) \<le> 127 \<Longrightarrow>
   \<exists>c'. call fuel ops c = Some (Inr c') \<and> handlers c' = handlers c \<and>
        logged c' = logged c @ lines_of ops \<and> calls c' = calls c"
proof (induction ops arbitrary: c)
  case Nil
  then show ?case by simp
next
  case (Cons x ops)
  show ?case
  proof (cases x)
    case (Log l)
    then show ?thesis
      using Cons.IH [of "c\<lparr>logged := logged c @ [l]\<rparr>"] Cons.prems by simp
  next
    case CallNext
    then have n: "Next fuel c = Some (Inr (c\<lparr>index := index c + 1\<rparr>))"
      using Cons.prems by (intro Next_past_end) simp_all
    show ?thesis
      using Cons.IH [of "c\<lparr>index := index c + 1\<rparr>"] Cons.prems CallNext n by simp
  next
    case CallAbort
    then show ?thesis
      using Cons.IH [of "Abort c"] Cons.prems by (simp add: Abort_def abortIndex_63)
  qed
qed







text \<open>
  The bound on the calls of \<open>Next\<close> is needed as well: the 65th call after \<open>Abort\<close> moves
  the cursor from 127 to \<open>-128\<close>, and the loop panics.
\<close>

lemma advance_overflow_after_abort:
  "map_option isl
     (call 0 (CallAbort # replicate 65 CallNext @ [Log (Msg ''after'')])
        \<lparr>index = 0,
           handlers = [CallAbort # replicate 65 CallNext @ [Log (Msg ''after'')],
                       [Log (Msg ''Handler'')]],
           logged = [], calls = [0]\<rparr>) =
   Some True"
  by code_simp

lemma returns_ok_weaken:
  "returns_ok lo' c' r \<Longrightarrow> lo \<le> lo' \<Longrightarrow> handlers c' = handlers c \<Longrightarrow> returns_ok lo c r"
  by (auto simp: returns_ok_def)

lemma chain_invariant:
  shows "body_ok c \<longrightarrow> enough fuel c \<longrightarrow>
           (\<exists>r. Next fuel c = Some r \<and> returns_ok (min 63 (index c)) c r)"
    and "loop_ok c \<longrightarrow> (0 \<le> index c \<longrightarrow> int (length (handlers c)) \<le> int fuel + index c) \<longrightarrow>
           (\<exists>r. Next_for fuel c = Some r \<and> returns_ok (index c) c r \<and> (index c < 0 \<longrightarrow> isl r))"
    and "body_ok c \<longrightarrow> enough fuel c \<longrightarrow>
           (\<exists>r. call fuel ops c = Some r \<and> returns_ok (min 63 (index c)) c r)"
proof (induction fuel c and fuel c and fuel ops c rule: Next_Next_for_call.induct)
  case (1 fuel c)
  show ?case
  proof (intro impI)
    assume b: "body_ok c" and f: "enough fuel c"
    define c1 where "c1 = c\<lparr>index := int8 (index c + 1)\<rparr>"
    have i: "0 \<le> index c" "index c \<le> 127"
      using b by (simp_all add: body_ok_def)
    have l: "loop_ok c1"
      using b i by (auto simp: body_ok_def loop_ok_def c1_def int8_succ)
    have e: "0 \<le> index c1 \<longrightarrow> int (length (handlers c1)) \<le> int fuel + index c1"
      using f i by (auto simp: enough_def c1_def int8_succ)
    obtain r where r: "Next_for fuel c1 = Some r" "returns_ok (index c1) c1 r" "index c1 < 0 \<longrightarrow> isl r"
      using 1 l e unfolding c1_def by blast
    have "returns_ok (min 63 (index c)) c r"
      using r(2,3) i by (cases r) (auto simp: returns_ok_def c1_def int8_succ split: if_splits)
    then show "\<exists>r. Next fuel c = Some r \<and> returns_ok (min 63 (index c)) c r"
      using r(1) by (simp add: Next.simps c1_def)
  qed
next
  case (2 fuel c)
  show ?case
  proof (intro impI)
    assume l: "loop_ok c"
      and f: "0 \<le> index c \<longrightarrow> int (length (handlers c)) \<le> int fuel + index c"
    have len: "length (handlers c) \<le> 64"
      using l by (simp add: loop_ok_def)
    then have l8: "int8 (int (length (handlers c))) = int (length (handlers c))"
      by (simp add: int8_id)
    consider (neg) "index c < 0" | (past) "int (length (handlers c)) \<le> index c"
      | (inside) "0 \<le> index c" "index c < int (length (handlers c))"
      by linarith
    then show "\<exists>r. Next_for fuel c = Some r \<and> returns_ok (index c) c r \<and> (index c < 0 \<longrightarrow> isl r)"
    proof cases
      case neg
      then have "Next_for fuel c = Some (Inl (IndexOutOfRange, c))"
        by (subst Next_for.simps) (simp add: l8)
      then show ?thesis
        using l by (simp add: returns_ok_def loop_ok_def)
    next
      case past
      then have "Next_for fuel c = Some (Inr c)"
        by (subst Next_for.simps) (simp add: l8)
      moreover have "body_ok c"
        using l past by (fastforce simp: loop_ok_def body_ok_def)
      ultimately show ?thesis
        using l past by (simp add: returns_ok_def loop_ok_def)
    next
      case inside
      then obtain g where g: "fuel = Suc g"
        using f by (cases fuel) simp_all
      define c1 where "c1 = c\<lparr>calls := calls c @ [nat (index c)]\<rparr>"
      have cond: "index c < int8 (int (length (handlers c)))"
        "\<not> (index c < 0 \<or> int (length (handlers c)) \<le> index c)"
        using inside by (simp_all add: l8)
      have b1: "body_ok c1"
        using l inside by (auto simp: loop_ok_def body_ok_def c1_def sorted_wrt_append)
      have e1: "enough g c1"
        using f inside len g by (simp add: enough_def c1_def)
      obtain r1 where r1: "call g (handlers c ! nat (index c)) c1 = Some r1"
          "returns_ok (min 63 (index c1)) c1 r1"
        using "2.IH"(1) [OF cond g] b1 e1 unfolding c1_def by blast
      have unfold: "Next_for fuel c =
          (case r1 of Inl e \<Rightarrow> Some (Inl e)
           | Inr c' \<Rightarrow> Next_for g (c'\<lparr>index := int8 (index c' + 1)\<rparr>))"
        using r1(1) cond by (subst Next_for.simps) (simp add: g c1_def)
      show ?thesis
      proof (cases r1)
        case (Inl e)
        then have "returns_ok (index c) c r1"
          using r1(2) by (auto simp: returns_ok_def c1_def)
        then show ?thesis
          using unfold Inl inside by simp
      next
        case (Inr b)
        have b: "body_ok b" "index c \<le> index b" "handlers b = handlers c"
          using r1(2) Inr inside len by (auto simp: returns_ok_def c1_def)
        define c2 where "c2 = b\<lparr>index := int8 (index b + 1)\<rparr>"
        have ib: "0 \<le> index b" "index b \<le> 127"
          using b(1) by (simp_all add: body_ok_def)
        have l2: "loop_ok c2"
          using b(1) ib by (auto simp: body_ok_def loop_ok_def c2_def int8_succ)
        have e2: "0 \<le> index c2 \<longrightarrow> int (length (handlers c2)) \<le> int g + index c2"
          using f inside b ib g by (auto simp: c2_def int8_succ)
        obtain r2 where r2: "Next_for g c2 = Some r2" "returns_ok (index c2) c2 r2"
            "index c2 < 0 \<longrightarrow> isl r2"
          using "2.IH"(2) [OF cond g r1(1) [unfolded c1_def] Inr] l2 e2 unfolding c2_def by blast
        have "returns_ok (index c) c r2"
          using r2(2,3) b ib
          by (cases r2) (auto simp: returns_ok_def c2_def int8_succ split: if_splits)
        then show ?thesis
          using unfold Inr r2(1) inside by (simp add: c2_def)
      qed
    qed
  qed
next
  case (3 fuel c)
  then show ?case
    by (auto simp: returns_ok_def body_ok_def)
next
  case (4 fuel l ops c)
  show ?case
  proof (intro impI)
    assume b: "body_ok c" and f: "enough fuel c"
    have "body_ok (c\<lparr>logged := logged c @ [l]\<rparr>)" "enough fuel (c\<lparr>logged := logged c @ [l]\<rparr>)"
      using b f by (simp_all add: body_ok_def enough_def)
    then obtain r where "call fuel ops (c\<lparr>logged := logged c @ [l]\<rparr>) = Some r"
        "returns_ok (min 63 (index c)) (c\<lparr>logged := logged c @ [l]\<rparr>) r"
      using 4 by auto
    then show "\<exists>r. call fuel (Log l # ops) c = Some r \<and> returns_ok (min 63 (index c)) c r"
      by (auto simp: returns_ok_def)
  qed
next
  case (5 fuel ops c)
  show ?case
  proof (intro impI)
    assume b: "body_ok c" and f: "enough fuel c"
    obtain r where r: "Next fuel c = Some r" "returns_ok (min 63 (index c)) c r"
      using "5.IH"(1) b f by blast
    show "\<exists>r. call fuel (CallNext # ops) c = Some r \<and> returns_ok (min 63 (index c)) c r"
    proof (cases r)
      case (Inl e)
      then show ?thesis
        using r by simp
    next
      case (Inr b')
      have b': "body_ok b'" "min 63 (index c) \<le> index b'" "handlers b' = handlers c"
        using r(2) Inr by (auto simp: returns_ok_def)
      have "enough fuel b'"
        using f b' by (simp add: enough_def)
      then obtain r' where r': "call fuel ops b' = Some r'" "returns_ok (min 63 (index b')) b' r'"
        using "5.IH"(2) [OF r(1) Inr] b'(1) by blast
      have "returns_ok (min 63 (index c)) c r'"
        using r'(2) b' by (intro returns_ok_weaken [OF r'(2)]) simp_all
      then show ?thesis
        using r(1) Inr r'(1) by simp
    qed
  qed
next
  case (6 fuel ops c)
  show ?case
  proof (intro impI)
    assume b: "body_ok c" and f: "enough fuel c"
    have "body_ok (Abort c)"
      using b by (fastforce simp: body_ok_def Abort_def abortIndex_63)
    moreover have "enough fuel (Abort c)"
      using b by (simp add: enough_def body_ok_def Abort_def abortIndex_63)
    ultimately obtain r where r: "call fuel ops (Abort c) = Some r"
        "returns_ok (min 63 (index (Abort c))) (Abort c) r"
      using 6 by blast
    have "returns_ok (min 63 (index c)) c r"
      by (rule returns_ok_weaken [OF r(2)]) (simp_all add: Abort_def abortIndex_63)
    then show "\<exists>r. call fuel (CallAbort # ops) c = Some r \<and> returns_ok (min 63 (index c)) c r"
      using r(1) by simp
  qed
qed

lemma distinct_count_list: "distinct xs \<Longrightarrow> count_list xs x \<le> 1"
  by (induction xs) (auto simp: count_list_0_iff)




end
